theory Spec2Isabelle
  imports Main
begin

section \<open>JavaScript values, \<open>typeof\<close>, truthiness and thrown errors\<close>

text \<open>
  The entry points of \<open>basic_prompt.js\<close> and \<open>chain_prompt.js\<close> are ordinary
  JavaScript functions, so they can be called with any value. The values are modelled as far
  as the functions look at them: through \<open>=== null\<close>, \<open>=== undefined\<close>, \<open>typeof\<close>,
  \<open>!str\<close> and the string methods. A number is kept as not-a-number, an infinity or a
  finite value with sign, magnitude and binary exponent, which is enough for truthiness.
  \<open>JSymbol\<close>, \<open>JFunction\<close> and \<open>JObject\<close> stand for values without a \<open>trim\<close> property
  (symbols, functions, plain objects, arrays).

  A string is a list of code units below 256 (Isabelle's \<open>char\<close>): the ASCII and Latin-1
  part of JavaScript's strings, where one \<open>char\<close> is one UTF-16 code unit.
\<close>

datatype jsnum = NaN | Infinity bool | Finite bool nat int

datatype jsval =
    JNull
  | JUndefined
  | JBoolean bool
  | JNumber jsnum
  | JBigInt int
  | JString string
  | JSymbol
  | JFunction
  | JObject

fun typeof :: "jsval \<Rightarrow> string" where
  "typeof JNull = ''object''"
| "typeof JUndefined = ''undefined''"
| "typeof (JBoolean b) = ''boolean''"
| "typeof (JNumber n) = ''number''"
| "typeof (JBigInt i) = ''bigint''"
| "typeof (JString s) = ''string''"
| "typeof JSymbol = ''symbol''"
| "typeof JFunction = ''function''"
| "typeof JObject = ''object''"

text \<open>\<open>truthy v\<close> is JavaScript's ToBoolean, so \<open>!v\<close> is \<open>\<not> truthy v\<close>.\<close>

fun truthy :: "jsval \<Rightarrow> bool" where
  "truthy JNull = False"
| "truthy JUndefined = False"
| "truthy (JBoolean b) = b"
| "truthy (JNumber NaN) = False"
| "truthy (JNumber (Infinity neg)) = True"
| "truthy (JNumber (Finite neg m e)) = (m \<noteq> 0)"
| "truthy (JBigInt i) = (i \<noteq> 0)"
| "truthy (JString s) = (s \<noteq> [])"
| "truthy JSymbol = True"
| "truthy JFunction = True"
| "truthy JObject = True"

text \<open>
  \<open>Error msg\<close> is \<open>throw new Error(msg)\<close>. \<open>TypeError\<close> is the error the engine itself
  throws when a property of \<open>null\<close> or \<open>undefined\<close> is read or when a value that is not
  a function is called.
\<close>

datatype js_error = Error string | TypeError

definition NullInput :: js_error where
  "NullInput = Error ''Input cannot be null''"

definition UndefinedInput :: js_error where
  "UndefinedInput = Error ''Input cannot be undefined''"

definition TypeMismatch :: "string \<Rightarrow> js_error" where
  "TypeMismatch observed = Error (''Input must be a string, received '' @ observed)"

definition EmptyInput :: js_error where
  "EmptyInput = Error ''Input cannot be an empty or whitespace-only string''"

definition NoValidCharacters :: js_error where
  "NoValidCharacters = Error ''Input contains no valid characters to convert''"


section \<open>Character classes of the regular expressions\<close>

definition code :: "char \<Rightarrow> nat" where
  "code c = of_char c"

text \<open>\<open>\s\<close> (and what \<open>trim\<close> strips): tab, line feed, vertical tab, form feed, carriage
  return, space and no-break space are the white space and line terminators below 256.\<close>

definition is_whitespace :: "char \<Rightarrow> bool" where
  "is_whitespace c \<longleftrightarrow> (9 \<le> code c \<and> code c \<le> 13) \<or> code c = 32 \<or> code c = 160"

text \<open>\<open>[a-z]\<close>, \<open>[A-Z]\<close>, \<open>[a-zA-Z]\<close>, \<open>\d\<close> and \<open>\w\<close>.\<close>

definition is_lower :: "char \<Rightarrow> bool" where
  "is_lower c \<longleftrightarrow> 97 \<le> code c \<and> code c \<le> 122"

definition is_upper :: "char \<Rightarrow> bool" where
  "is_upper c \<longleftrightarrow> 65 \<le> code c \<and> code c \<le> 90"

definition is_letter :: "char \<Rightarrow> bool" where
  "is_letter c \<longleftrightarrow> is_lower c \<or> is_upper c"

definition is_digit :: "char \<Rightarrow> bool" where
  "is_digit c \<longleftrightarrow> 48 \<le> code c \<and> code c \<le> 57"

definition is_word :: "char \<Rightarrow> bool" where
  "is_word c \<longleftrightarrow> is_letter c \<or> is_digit c \<or> c = CHR ''_''"

definition is_hyphen :: "char \<Rightarrow> bool" where
  "is_hyphen c \<longleftrightarrow> c = CHR ''-''"


section \<open>String methods\<close>

text \<open>\<open>toLowerCase\<close>: \<open>A\<close>-\<open>Z\<close> and the Latin-1 capitals (192 to 222 without the
  multiplication sign 215) move up by 32; every other code unit below 256 is unchanged.\<close>

definition lower_char :: "char \<Rightarrow> char" where
  "lower_char c =
     (if is_upper c \<or> (192 \<le> code c \<and> code c \<le> 222 \<and> code c \<noteq> 215)
      then char_of (code c + 32) else c)"

definition toLowerCase :: "string \<Rightarrow> string" where
  "toLowerCase s = map lower_char s"

text \<open>\<open>toUpperCase\<close>: \<open>a\<close>-\<open>z\<close> and the Latin-1 small letters 224 to 254 (without the
  division sign 247) move down by 32. The three code units whose capital is not a single
  code unit below 256 (181, 223, 255) are left alone here; \<open>toCamelCase\<close> applies
  \<open>toUpperCase\<close> to the first character of a word only, which is an ASCII letter or digit.\<close>

definition upper_char :: "char \<Rightarrow> char" where
  "upper_char c =
     (if is_lower c \<or> (224 \<le> code c \<and> code c \<le> 254 \<and> code c \<noteq> 247)
      then char_of (code c - 32) else c)"

definition toUpperCase :: "string \<Rightarrow> string" where
  "toUpperCase s = map upper_char s"

definition trim :: "string \<Rightarrow> string" where
  "trim s = rev (dropWhile is_whitespace (rev (dropWhile is_whitespace s)))"

text \<open>\<open>word.charAt(i)\<close> is the empty string out of range; \<open>word.slice(n)\<close> for \<open>n \<ge> 0\<close>.\<close>

definition charAt :: "string \<Rightarrow> nat \<Rightarrow> string" where
  "charAt s i = (if i < length s then [s ! i] else [])"

definition slice :: "string \<Rightarrow> nat \<Rightarrow> string" where
  "slice s n = drop n s"

text \<open>\<open>words.join(sep)\<close>.\<close>

fun join :: "string \<Rightarrow> string list \<Rightarrow> string" where
  "join sep [] = []"
| "join sep [w] = w"
| "join sep (w # v # ws) = w @ sep @ join sep (v # ws)"

text \<open>\<open>s.replace(/[cls]/g, "")\<close>: every character of the class is dropped.\<close>

definition remove_chars :: "(char \<Rightarrow> bool) \<Rightarrow> string \<Rightarrow> string" where
  "remove_chars cls s = filter (\<lambda>c. \<not> cls c) s"

text \<open>\<open>s.replace(/[cls]+/g, r)\<close>: every maximal run of characters of the class becomes
  one copy of \<open>r\<close>.\<close>

function replace_runs :: "(char \<Rightarrow> bool) \<Rightarrow> string \<Rightarrow> string \<Rightarrow> string" where
  "replace_runs cls r [] = []"
| "replace_runs cls r (c # cs) =
     (if cls c then r @ replace_runs cls r (dropWhile cls cs)
      else c # replace_runs cls r cs)"
  by pat_completeness auto
termination
  by (relation "measure (\<lambda>(cls, r, s). length s)")
     (auto simp: less_Suc_eq_le length_dropWhile_le)

text \<open>\<open>s.split(/[cls]+/)\<close>: the pieces between the maximal runs of the class, with the
  empty pieces before a leading run and after a trailing one; the empty string splits into
  one empty piece. \<open>cur\<close> is the piece read so far.\<close>

function split_runs_from :: "(char \<Rightarrow> bool) \<Rightarrow> string \<Rightarrow> string \<Rightarrow> string list" where
  "split_runs_from cls cur [] = [cur]"
| "split_runs_from cls cur (c # cs) =
     (if cls c then cur # split_runs_from cls [] (dropWhile cls cs)
      else split_runs_from cls (cur @ [c]) cs)"
  by pat_completeness auto
termination
  by (relation "measure (\<lambda>(cls, cur, s). length s)")
     (auto simp: less_Suc_eq_le length_dropWhile_le)

definition split_runs :: "(char \<Rightarrow> bool) \<Rightarrow> string \<Rightarrow> string list" where
  "split_runs cls s = split_runs_from cls [] s"

text \<open>\<open>s.replace(/([p])([q])/g, '$1-$2')\<close>: scanning from the left, a character of
  \<open>p\<close> directly followed by one of \<open>q\<close> gets a hyphen in between, and the scan goes on
  after the pair.\<close>

fun hyphenate :: "(char \<Rightarrow> bool) \<Rightarrow> (char \<Rightarrow> bool) \<Rightarrow> string \<Rightarrow> string" where
  "hyphenate p q (a # b # cs) =
     (if p a \<and> q b then a # CHR ''-'' # b # hyphenate p q cs
      else a # hyphenate p q (b # cs))"
| "hyphenate p q cs = cs"

text \<open>\<open>s.replace(/^-+|-+$/g, '')\<close>: the leading and the trailing run of hyphens go.\<close>

definition strip_hyphens :: "string \<Rightarrow> string" where
  "strip_hyphens s = rev (dropWhile is_hyphen (rev (dropWhile is_hyphen s)))"


section \<open>The four conversions\<close>

subsection \<open>\<open>toSnakeCase\<close> (basic\_prompt.js)\<close>

text \<open>No check of the argument: \<open>str.trim()\<close> on anything but a string throws the
  engine's \<open>TypeError\<close>.\<close>

fun toSnakeCase :: "jsval \<Rightarrow> js_error + string" where
  "toSnakeCase (JString str) =
     Inr (replace_runs is_whitespace ''_'' (toLowerCase (trim str)))"
| "toSnakeCase str = Inl TypeError"

subsection \<open>\<open>toCamelCase\<close> (basic\_prompt.js)\<close>

text \<open>The value of \<open>const words\<close>.\<close>

definition toCamelCase_words :: "string \<Rightarrow> string list" where
  "toCamelCase_words input =
     filter (\<lambda>word. length word > 0)
       (split_runs (\<lambda>c. is_whitespace c \<or> c = CHR ''_'' \<or> c = CHR ''-'')
         (remove_chars (\<lambda>c. \<not> (is_word c \<or> is_whitespace c \<or> c = CHR ''-'')) input))"

text \<open>The callback of \<open>words.map\<close>.\<close>

definition camel_word :: "string \<times> nat \<Rightarrow> string" where
  "camel_word = (\<lambda>(word, index).
     if index = 0 then toLowerCase word
     else toUpperCase (charAt word 0) @ toLowerCase (slice word 1))"

fun toCamelCase :: "jsval \<Rightarrow> js_error + string" where
  "toCamelCase JNull = Inl NullInput"
| "toCamelCase JUndefined = Inl UndefinedInput"
| "toCamelCase (JString input) =
     (if length (trim input) = 0 then Inl EmptyInput
      else let words = toCamelCase_words input in
        if length words = 0 then Inl NoValidCharacters
        else Inr (join [] (map camel_word (zip words [0 ..< length words]))))"
| "toCamelCase input = Inl (TypeMismatch (typeof input))"

subsection \<open>\<open>toDotCase\<close> (basic\_prompt.js)\<close>

definition toDotCase_words :: "string \<Rightarrow> string list" where
  "toDotCase_words input =
     filter (\<lambda>word. length word > 0)
       (split_runs (\<lambda>c. is_whitespace c \<or> c = CHR ''_'' \<or> c = CHR ''-'')
         (remove_chars (\<lambda>c. \<not> (is_word c \<or> is_whitespace c \<or> c = CHR ''-'')) input))"

fun toDotCase :: "jsval \<Rightarrow> js_error + string" where
  "toDotCase JNull = Inl NullInput"
| "toDotCase JUndefined = Inl UndefinedInput"
| "toDotCase (JString input) =
     (if length (trim input) = 0 then Inl EmptyInput
      else let words = toDotCase_words input in
        if length words = 0 then Inl NoValidCharacters
        else Inr (join ''.'' (map (\<lambda>word. toLowerCase word) words)))"
| "toDotCase input = Inl (TypeMismatch (typeof input))"

subsection \<open>\<open>toKebabCase\<close> (chain\_prompt.js)\<close>

text \<open>The chain of \<open>replace\<close> and \<open>toLowerCase\<close> calls, in the order of the source.\<close>

definition kebab_chain :: "string \<Rightarrow> string" where
  "kebab_chain str =
     strip_hyphens
       (replace_runs is_hyphen ''-''
         (toLowerCase
           (remove_chars (\<lambda>c. \<not> (is_word c \<or> c = CHR ''-''))
             (replace_runs (\<lambda>c. is_whitespace c \<or> c = CHR ''_'') ''-''
               (hyphenate is_digit is_letter
                 (hyphenate is_letter is_digit
                   (hyphenate is_lower is_upper str)))))))"

text \<open>The guard returns the empty string; past it the argument is a string, so the last
  case is never reached.\<close>

definition toKebabCase :: "jsval \<Rightarrow> js_error + string" where
  "toKebabCase str =
     (if \<not> truthy str \<or> typeof str \<noteq> ''string'' then Inr []
      else case str of JString s \<Rightarrow> Inr (kebab_chain s) | _ \<Rightarrow> Inr [])"

section \<open>Notions used to state the properties\<close>

text \<open>Letters and digits; the separators \<open>toCamelCase\<close> and \<open>toDotCase\<close> split at; ASCII
  punctuation; and whether somewhere in a string a character of \<open>p\<close> is directly followed
  by one of \<open>q\<close>.\<close>

definition is_alnum :: "char \<Rightarrow> bool" where
  "is_alnum c \<longleftrightarrow> is_letter c \<or> is_digit c"

definition is_separator :: "char \<Rightarrow> bool" where
  "is_separator c \<longleftrightarrow> is_whitespace c \<or> c = CHR ''_'' \<or> c = CHR ''-''"

definition is_punct :: "char \<Rightarrow> bool" where
  "is_punct c \<longleftrightarrow> (33 \<le> code c \<and> code c \<le> 47) \<or> (58 \<le> code c \<and> code c \<le> 64) \<or>
     (91 \<le> code c \<and> code c \<le> 96) \<or> (123 \<le> code c \<and> code c \<le> 126)"

fun has_adjacent :: "(char \<Rightarrow> bool) \<Rightarrow> (char \<Rightarrow> bool) \<Rightarrow> string \<Rightarrow> bool" where
  "has_adjacent p q (a # b # cs) = ((p a \<and> q b) \<or> has_adjacent p q (b # cs))"
| "has_adjacent p q cs = False"

section \<open>Facts about the character classes\<close>

lemma code_underscore: "code CHR ''_'' = 95"
  by (simp add: code_def)

lemma code_hyphen: "code CHR ''-'' = 45"
  by (simp add: code_def)

lemma code_dot: "code CHR ''.'' = 46"
  by (simp add: code_def)

lemma code_lt: "code c < 256"
  unfolding code_def by simp

lemma code_inj: "code a = code b \<Longrightarrow> a = b"
  unfolding code_def by simp

lemma code_char_of: "n < 256 \<Longrightarrow> code (char_of n) = n"
  unfolding code_def by (simp add: of_char_of)

lemmas class_defs = is_whitespace_def is_lower_def is_upper_def is_letter_def is_digit_def
  is_word_def is_hyphen_def is_alnum_def is_separator_def is_punct_def

lemma code_lower_char:
  "code (lower_char c) =
     (if is_upper c \<or> (192 \<le> code c \<and> code c \<le> 222 \<and> code c \<noteq> 215) then code c + 32 else code c)"
  using code_lt [of c] by (auto simp: lower_char_def code_char_of is_upper_def)

lemma code_upper_char:
  "code (upper_char c) =
     (if is_lower c \<or> (224 \<le> code c \<and> code c \<le> 254 \<and> code c \<noteq> 247) then code c - 32 else code c)"
  using code_lt [of c] by (auto simp: upper_char_def code_char_of is_lower_def)

lemma eq_underscore: "c = CHR ''_'' \<longleftrightarrow> code c = 95"
  using code_inj [of c "CHR ''_''"] by (auto simp: code_underscore)

lemma eq_hyphen: "c = CHR ''-'' \<longleftrightarrow> code c = 45"
  using code_inj [of c "CHR ''-''"] by (auto simp: code_hyphen)

lemma eq_dot: "c = CHR ''.'' \<longleftrightarrow> code c = 46"
  using code_inj [of c "CHR ''.''"] by (auto simp: code_dot)

lemmas to_code = class_defs code_underscore code_hyphen code_dot eq_underscore eq_hyphen eq_dot
  code_lower_char code_upper_char

lemma alnum_lower_char: "is_alnum c \<Longrightarrow> is_alnum (lower_char c)"
  by (auto simp: to_code)

lemma alnum_upper_char: "is_alnum c \<Longrightarrow> is_alnum (upper_char c)"
  by (auto simp: to_code)

lemma alnum_not_whitespace: "is_alnum c \<Longrightarrow> \<not> is_whitespace c"
  by (auto simp: to_code)

lemma alnum_not_separator: "is_alnum c \<Longrightarrow> \<not> is_separator c"
  by (auto simp: to_code)

lemma lower_char_idem: "lower_char (lower_char c) = lower_char c"
  by (rule code_inj) (auto simp: to_code)

lemma lower_char_underscore: "lower_char CHR ''_'' = CHR ''_''"
  by (rule code_inj) (auto simp: to_code)

lemma punct_lower_char: "is_punct c \<Longrightarrow> lower_char c = c"
  by (rule code_inj) (auto simp: to_code)

section \<open>Facts about the string operations\<close>

subsection \<open>Dropping a class of characters from both ends\<close>

lemma dropWhile_all: "\<forall>c\<in>set s. P c \<Longrightarrow> dropWhile P s = []"
  by (induction s) auto

lemma dropWhile_none: "s = [] \<or> \<not> P (hd s) \<Longrightarrow> dropWhile P s = s"
  by (cases s) auto

lemma both_ends_id:
  assumes "s = [] \<or> (\<not> P (hd s) \<and> \<not> P (last s))"
  shows "rev (dropWhile P (rev (dropWhile P s))) = s"
proof (cases "s = []")
  case True
  then show ?thesis by simp
next
  case False
  with assms have h: "\<not> P (hd s)" and l: "\<not> P (last s)" by auto
  from False h have 1: "dropWhile P s = s" by (simp add: dropWhile_none)
  from False l have "\<not> P (hd (rev s))" by (simp add: hd_rev)
  then have "dropWhile P (rev s) = rev s" by (simp add: dropWhile_none)
  with 1 show ?thesis by simp
qed

lemma both_ends_Nil_iff:
  "rev (dropWhile P (rev (dropWhile P s))) = [] \<longleftrightarrow> (\<forall>c\<in>set s. P c)"
proof
  assume "rev (dropWhile P (rev (dropWhile P s))) = []"
  then have "dropWhile P (rev (dropWhile P s)) = []" by simp
  then have "\<forall>c\<in>set (rev (dropWhile P s)). P c" by (simp add: dropWhile_eq_Nil_conv)
  then have a: "\<forall>c\<in>set (dropWhile P s). P c" by simp
  have "dropWhile P s = []"
  proof (rule ccontr)
    assume n: "dropWhile P s \<noteq> []"
    then have "\<not> P (hd (dropWhile P s))" by (rule hd_dropWhile)
    moreover from n have "hd (dropWhile P s) \<in> set (dropWhile P s)" by simp
    ultimately show False using a by blast
  qed
  then show "\<forall>c\<in>set s. P c" by (simp add: dropWhile_eq_Nil_conv)
next
  assume "\<forall>c\<in>set s. P c"
  then show "rev (dropWhile P (rev (dropWhile P s))) = []" by (simp add: dropWhile_all)
qed

lemma both_ends_subset:
  "set (rev (dropWhile P (rev (dropWhile P s)))) \<subseteq> set s"
proof -
  have "set (dropWhile P (rev (dropWhile P s))) \<subseteq> set (rev (dropWhile P s))"
    by (rule set_dropWhileD [THEN subsetI])
  also have "\<dots> \<subseteq> set s" using set_dropWhileD [of _ P s] by auto
  finally show ?thesis by simp
qed

lemma both_ends_clean:
  assumes "rev (dropWhile P (rev (dropWhile P s))) \<noteq> []"
  shows "\<not> P (hd (rev (dropWhile P (rev (dropWhile P s))))) \<and>
         \<not> P (last (rev (dropWhile P (rev (dropWhile P s)))))"
proof -
  define A where "A = dropWhile P s"
  define B where "B = dropWhile P (rev A)"
  from assms have B: "B \<noteq> []" by (simp add: A_def B_def)
  then have hdB: "\<not> P (hd B)" unfolding B_def by (rule hd_dropWhile)
  from B have A: "A \<noteq> []" by (auto simp: B_def)
  then have hdA: "\<not> P (hd A)" unfolding A_def by (rule hd_dropWhile)
  have "rev A = takeWhile P (rev A) @ B" by (simp add: B_def)
  then have "rev (rev A) = rev (takeWhile P (rev A) @ B)" by simp
  then have split: "A = rev B @ rev (takeWhile P (rev A))" by simp
  from B have "hd (rev B @ rev (takeWhile P (rev A))) = hd (rev B)" by simp
  with split have "hd A = hd (rev B)" by simp
  with hdA have 1: "\<not> P (hd (rev B))" by simp
  from B hdB have 2: "\<not> P (last (rev B))" by (simp add: last_rev)
  from 1 2 show ?thesis by (simp add: A_def B_def)
qed

lemma both_ends_idem:
  "rev (dropWhile P (rev (dropWhile P (rev (dropWhile P (rev (dropWhile P s))))))) =
   rev (dropWhile P (rev (dropWhile P s)))"
  using both_ends_clean [of P s] by (intro both_ends_id) blast

lemma trim_Nil_iff: "trim s = [] \<longleftrightarrow> (\<forall>c\<in>set s. is_whitespace c)"
  unfolding trim_def by (rule both_ends_Nil_iff)

lemma both_ends_none:
  assumes "\<forall>c\<in>set s. \<not> P c"
  shows "rev (dropWhile P (rev (dropWhile P s))) = s"
proof (rule both_ends_id, cases "s = []")
  case True
  then show "s = [] \<or> (\<not> P (hd s) \<and> \<not> P (last s))" by simp
next
  case False
  then have "hd s \<in> set s" "last s \<in> set s" by simp_all
  with assms show "s = [] \<or> (\<not> P (hd s) \<and> \<not> P (last s))" by blast
qed

lemma trim_id: "\<forall>c\<in>set s. \<not> is_whitespace c \<Longrightarrow> trim s = s"
  unfolding trim_def by (rule both_ends_none)

subsection \<open>Replacing runs\<close>

lemma set_replace_runs:
  "c \<in> set (replace_runs cls r s) \<Longrightarrow> c \<in> set r \<or> (c \<in> set s \<and> \<not> cls c)"
proof (induction cls r s rule: replace_runs.induct)
  case (1 cls r)
  then show ?case by simp
next
  case (2 cls r a cs)
  then show ?case by (auto split: if_splits dest: set_dropWhileD)
qed

lemma replace_runs_id: "\<forall>c\<in>set s. \<not> cls c \<Longrightarrow> replace_runs cls r s = s"
  by (induction s) auto

subsection \<open>Splitting at runs\<close>

lemma split_runs_from_word:
  "\<forall>c\<in>set w. \<not> cls c \<Longrightarrow> split_runs_from cls cur (w @ xs) = split_runs_from cls (cur @ w) xs"
  by (induction w arbitrary: cur) auto

lemma split_runs_from_sep:
  assumes "sep \<noteq> []" "\<forall>c\<in>set sep. cls c" "xs = [] \<or> \<not> cls (hd xs)"
  shows "split_runs_from cls cur (sep @ xs) = cur # split_runs_from cls [] xs"
proof -
  from assms(1) obtain c sep' where sep: "sep = c # sep'" by (cases sep) auto
  with assms(2) have c: "cls c" and r: "\<forall>c\<in>set sep'. cls c" by auto
  from r assms(3) have "dropWhile cls (sep' @ xs) = xs"
    by (cases xs) (auto simp: dropWhile_append dropWhile_all)
  with c sep show ?thesis by simp
qed

lemma split_runs_from_all:
  "\<forall>c\<in>set s. cls c \<Longrightarrow> split_runs_from cls cur s = (if s = [] then [cur] else [cur, []])"
  by (cases s) (auto simp: dropWhile_all)

lemma split_runs_from_chars:
  "w \<in> set (split_runs_from cls cur s) \<Longrightarrow> c \<in> set w \<Longrightarrow>
     c \<in> set cur \<or> (c \<in> set s \<and> \<not> cls c)"
proof (induction cls cur s rule: split_runs_from.induct)
  case (1 cls cur)
  then show ?case by simp
next
  case (2 cls cur a cs)
  show ?case
  proof (cases "cls a")
    case True
    with 2 show ?thesis by (auto dest: set_dropWhileD)
  next
    case False
    with 2 show ?thesis by auto
  qed
qed

subsection \<open>Joining\<close>

lemma join_Nil: "join [] ws = concat ws"
  by (induction "[]::string" ws rule: join.induct) auto

lemma set_join: "set (join sep ws) \<subseteq> set sep \<union> \<Union> (set ` set ws)"
  by (induction sep ws rule: join.induct) auto

section \<open>The characters of the outputs\<close>

subsection \<open>Words of camel and dot\<close>

lemma camel_words_alnum:
  assumes "w \<in> set (toCamelCase_words s)" "c \<in> set w"
  shows "is_alnum c"
proof -
  let ?cls = "\<lambda>c. is_whitespace c \<or> c = CHR ''_'' \<or> c = CHR ''-''"
  let ?t = "remove_chars (\<lambda>c. \<not> (is_word c \<or> is_whitespace c \<or> c = CHR ''-'')) s"
  from assms(1) have "w \<in> set (split_runs_from ?cls [] ?t)"
    by (simp add: toCamelCase_words_def split_runs_def)
  from split_runs_from_chars [OF this assms(2)]
  have "c \<in> set ?t" and n: "\<not> ?cls c" by auto
  then have "is_word c \<or> is_whitespace c \<or> c = CHR ''-''" by (simp add: remove_chars_def)
  with n show ?thesis by (auto simp: is_word_def is_alnum_def)
qed

lemma camel_words_nonempty: "w \<in> set (toCamelCase_words s) \<Longrightarrow> w \<noteq> []"
  by (auto simp: toCamelCase_words_def)

lemma dot_words_camel: "toDotCase_words s = toCamelCase_words s"
  by (simp add: toDotCase_words_def toCamelCase_words_def)

lemma alnum_toLowerCase: "\<forall>c\<in>set w. is_alnum c \<Longrightarrow> \<forall>c\<in>set (toLowerCase w). is_alnum c"
  by (auto simp: toLowerCase_def alnum_lower_char)

lemma alnum_toUpperCase: "\<forall>c\<in>set w. is_alnum c \<Longrightarrow> \<forall>c\<in>set (toUpperCase w). is_alnum c"
  by (auto simp: toUpperCase_def alnum_upper_char)

lemma set_charAt: "set (charAt w i) \<subseteq> set w"
  by (auto simp: charAt_def)

lemma set_slice: "set (slice w n) \<subseteq> set w"
  by (auto simp: slice_def dest: in_set_dropD)

lemma alnum_camel_word:
  assumes "\<forall>c\<in>set w. is_alnum c"
  shows "\<forall>c\<in>set (camel_word (w, i)). is_alnum c"
proof -
  from assms set_charAt [of w 0] have "\<forall>c\<in>set (charAt w 0). is_alnum c" by blast
  then have 1: "\<forall>c\<in>set (toUpperCase (charAt w 0)). is_alnum c" by (rule alnum_toUpperCase)
  from assms set_slice [of w 1] have "\<forall>c\<in>set (slice w 1). is_alnum c" by blast
  then have 2: "\<forall>c\<in>set (toLowerCase (slice w 1)). is_alnum c" by (rule alnum_toLowerCase)
  from 1 2 alnum_toLowerCase [OF assms] show ?thesis by (auto simp: camel_word_def)
qed

lemma camel_output_alnum:
  assumes "toCamelCase v = Inr out" "c \<in> set out"
  shows "is_alnum c"
proof (cases v)
  case (JString s)
  let ?ws = "toCamelCase_words s"
  from assms(1) JString
  have out: "out = join [] (map camel_word (zip ?ws [0 ..< length ?ws]))"
    by (simp add: Let_def split: if_splits)
  with assms(2) obtain p where p: "p \<in> set (zip ?ws [0 ..< length ?ws])" and c: "c \<in> set (camel_word p)"
    by (auto simp: join_Nil)
  obtain w i where wi: "p = (w, i)" by (cases p)
  with p have "w \<in> set ?ws" by (auto dest: set_zip_leftD)
  then have "\<forall>c\<in>set w. is_alnum c" by (blast intro: camel_words_alnum)
  from alnum_camel_word [OF this, of i] c wi show ?thesis by blast
qed (use assms in auto)

lemma dot_output_chars:
  assumes "toDotCase v = Inr out" "c \<in> set out"
  shows "is_alnum c \<or> c = CHR ''.''"
proof (cases v)
  case (JString s)
  let ?ws = "toDotCase_words s"
  from assms(1) JString have out: "out = join ''.'' (map (\<lambda>word. toLowerCase word) ?ws)"
    by (simp add: Let_def split: if_splits)
  from assms(2) set_join [of "''.''" "map (\<lambda>word. toLowerCase word) ?ws"] out
  have "c = CHR ''.'' \<or> (\<exists>w\<in>set ?ws. c \<in> set (toLowerCase w))" by auto
  then show ?thesis
  proof
    assume "c = CHR ''.''" then show ?thesis by simp
  next
    assume "\<exists>w\<in>set ?ws. c \<in> set (toLowerCase w)"
    then obtain w where w: "w \<in> set ?ws" and c: "c \<in> set (toLowerCase w)" by blast
    from w have "\<forall>c\<in>set w. is_alnum c" by (auto simp: dot_words_camel intro: camel_words_alnum)
    from alnum_toLowerCase [OF this] c show ?thesis by blast
  qed
qed (use assms in auto)

lemma snake_output_chars:
  assumes "toSnakeCase v = Inr out" "c \<in> set out"
  shows "\<not> is_whitespace c"
proof (cases v)
  case (JString s)
  with assms have "c \<in> set (replace_runs is_whitespace ''_'' (toLowerCase (trim s)))" by auto
  from set_replace_runs [OF this] show ?thesis by (auto simp: to_code)
qed (use assms in auto)

subsection \<open>Characters of the kebab chain\<close>

lemma set_strip_hyphens: "set (strip_hyphens s) \<subseteq> set s"
  unfolding strip_hyphens_def by (rule both_ends_subset)

lemma kebab_chain_chars:
  assumes "c \<in> set (kebab_chain s)"
  shows "is_lower c \<or> is_digit c \<or> c = CHR ''-''"
proof -
  let ?t = "hyphenate is_digit is_letter (hyphenate is_letter is_digit (hyphenate is_lower is_upper s))"
  let ?u = "replace_runs (\<lambda>c. is_whitespace c \<or> c = CHR ''_'') ''-'' ?t"
  let ?z = "toLowerCase (remove_chars (\<lambda>c. \<not> (is_word c \<or> c = CHR ''-'')) ?u)"
  from assms set_strip_hyphens have "c \<in> set (replace_runs is_hyphen ''-'' ?z)"
    unfolding kebab_chain_def by blast
  from set_replace_runs [OF this] have "c = CHR ''-'' \<or> c \<in> set ?z" by auto
  then show ?thesis
  proof
    assume "c = CHR ''-''" then show ?thesis by simp
  next
    assume "c \<in> set ?z"
    then obtain d where d: "d \<in> set ?u" "is_word d \<or> d = CHR ''-''" and c: "c = lower_char d"
      by (auto simp: toLowerCase_def remove_chars_def)
    from set_replace_runs [OF d(1)] have "d = CHR ''-'' \<or> d \<noteq> CHR ''_''" by auto
    with d(2) have "is_alnum d \<or> d = CHR ''-''" by (auto simp: is_word_def is_alnum_def)
    with c show ?thesis by (auto simp: to_code intro: code_inj)
  qed
qed

lemma kebab_output_chars:
  assumes "toKebabCase v = Inr out" "c \<in> set out"
  shows "is_lower c \<or> is_digit c \<or> c = CHR ''-''"
proof (cases v)
  case (JString s)
  with assms have "c \<in> set (kebab_chain s)" by (auto simp: toKebabCase_def split: if_splits)
  then show ?thesis by (rule kebab_chain_chars)
qed (use assms in \<open>auto simp: toKebabCase_def\<close>)

section \<open>Hyphen insertion and strings of punctuation\<close>

subsection \<open>Inserting hyphens\<close>

lemma hyphenate_no_left: "\<forall>c\<in>set s. \<not> p c \<Longrightarrow> hyphenate p q s = s"
  by (induction p q s rule: hyphenate.induct) auto

lemma hyphenate_no_right: "\<forall>c\<in>set s. \<not> q c \<Longrightarrow> hyphenate p q s = s"
  by (induction p q s rule: hyphenate.induct) auto

lemma toLowerCase_id: "\<forall>c\<in>set s. lower_char c = c \<Longrightarrow> toLowerCase s = s"
  by (simp add: toLowerCase_def map_idI)

subsection \<open>Strings of punctuation\<close>

lemma punct_not_whitespace: "is_punct c \<Longrightarrow> \<not> is_whitespace c"
  by (auto simp: to_code)

lemma punct_not_alnum: "is_punct c \<Longrightarrow> \<not> is_alnum c"
  by (auto simp: to_code)

lemma punct_word: "is_punct c \<Longrightarrow> is_word c \<Longrightarrow> c = CHR ''_''"
  by (auto simp: to_code)

lemma punct_camel_words:
  assumes "\<forall>c\<in>set s. is_punct c"
  shows "toCamelCase_words s = []"
proof -
  let ?cls = "\<lambda>c. is_whitespace c \<or> c = CHR ''_'' \<or> c = CHR ''-''"
  let ?t = "remove_chars (\<lambda>c. \<not> (is_word c \<or> is_whitespace c \<or> c = CHR ''-'')) s"
  have "\<forall>c\<in>set ?t. ?cls c" using assms by (auto simp: remove_chars_def dest: punct_word)
  then have "split_runs_from ?cls [] ?t = (if ?t = [] then [[]] else [[], []])"
    by (rule split_runs_from_all)
  then show ?thesis by (simp add: toCamelCase_words_def split_runs_def)
qed

lemma punct_camel:
  assumes "s \<noteq> []" "\<forall>c\<in>set s. is_punct c"
  shows "toCamelCase (JString s) = Inl NoValidCharacters"
proof -
  from assms(2) have "trim s = s" by (intro trim_id) (auto dest: punct_not_whitespace)
  with assms(1) punct_camel_words [OF assms(2)] show ?thesis by simp
qed

lemma punct_dot:
  assumes "s \<noteq> []" "\<forall>c\<in>set s. is_punct c"
  shows "toDotCase (JString s) = Inl NoValidCharacters"
proof -
  from assms(2) have "trim s = s" by (intro trim_id) (auto dest: punct_not_whitespace)
  with assms(1) punct_camel_words [OF assms(2)] show ?thesis by (simp add: dot_words_camel)
qed

lemma punct_snake:
  assumes "\<forall>c\<in>set s. is_punct c"
  shows "toSnakeCase (JString s) = Inr s" and "toLowerCase s = s"
proof -
  from assms have t: "trim s = s" by (intro trim_id) (auto dest: punct_not_whitespace)
  from assms show l: "toLowerCase s = s" by (intro toLowerCase_id) (auto dest: punct_lower_char)
  from assms have "replace_runs is_whitespace ''_'' s = s"
    by (intro replace_runs_id) (auto dest: punct_not_whitespace)
  with t l show "toSnakeCase (JString s) = Inr s" by simp
qed

lemma lower_char_hyphen: "lower_char CHR ''-'' = CHR ''-''"
  by (rule code_inj) (simp add: to_code)

lemma punct_kebab_chain:
  assumes "\<forall>c\<in>set s. is_punct c"
  shows "kebab_chain s = []"
proof -
  from assms have a: "\<forall>c\<in>set s. \<not> is_alnum c" by (auto dest: punct_not_alnum)
  then have 1: "hyphenate is_lower is_upper s = s"
    by (intro hyphenate_no_left) (auto simp: is_alnum_def is_letter_def)
  from a have 2: "hyphenate is_letter is_digit s = s"
    by (intro hyphenate_no_left) (auto simp: is_alnum_def)
  from a have 3: "hyphenate is_digit is_letter s = s"
    by (intro hyphenate_no_left) (auto simp: is_alnum_def)
  let ?u = "replace_runs (\<lambda>c. is_whitespace c \<or> c = CHR ''_'') ''-'' s"
  let ?r = "remove_chars (\<lambda>c. \<not> (is_word c \<or> c = CHR ''-'')) ?u"
  have u: "c = CHR ''-'' \<or> (is_punct c \<and> c \<noteq> CHR ''_'')" if "c \<in> set ?u" for c
    using set_replace_runs [OF that] assms by auto
  have r: "\<forall>c\<in>set ?r. c = CHR ''-''"
    using u by (auto simp: remove_chars_def dest: punct_word)
  have low: "toLowerCase ?r = ?r"
  proof (rule toLowerCase_id, rule ballI)
    fix c assume "c \<in> set ?r"
    with r have "c = CHR ''-''" by blast
    then show "lower_char c = c" by (simp add: lower_char_hyphen)
  qed
  have "\<forall>c\<in>set (replace_runs is_hyphen ''-'' ?r). is_hyphen c"
  proof
    fix c assume "c \<in> set (replace_runs is_hyphen ''-'' ?r)"
    from set_replace_runs [OF this] have "c \<in> set ''-'' \<or> c \<in> set ?r" by blast
    with r have "c = CHR ''-''" by auto
    then show "is_hyphen c" by (simp add: is_hyphen_def)
  qed
  then have "strip_hyphens (replace_runs is_hyphen ''-'' ?r) = []"
    unfolding strip_hyphens_def by (simp only: both_ends_Nil_iff)
  with low show ?thesis by (simp add: kebab_chain_def 1 2 3)
qed

section \<open>Tokenizing and rendering in \<open>toCamelCase\<close>\<close>

subsection \<open>Tokenizing words joined by separator runs\<close>

lemma is_separator_eq:
  "(\<lambda>c. is_whitespace c \<or> c = CHR ''_'' \<or> c = CHR ''-'') = is_separator"
  by (rule ext) (simp add: is_separator_def)

lemma camel_words_split:
  assumes "\<forall>c\<in>set s. is_alnum c \<or> is_separator c"
  shows "toCamelCase_words s = filter (\<lambda>w. w \<noteq> []) (split_runs_from is_separator [] s)"
proof -
  have "filter (\<lambda>c. is_word c \<or> is_whitespace c \<or> c = CHR ''-'') s = s"
  proof (rule filter_True, rule ballI)
    fix c assume "c \<in> set s"
    with assms have "is_alnum c \<or> is_separator c" by blast
    then show "is_word c \<or> is_whitespace c \<or> c = CHR ''-''"
      by (auto simp: is_alnum_def is_word_def is_separator_def)
  qed
  then show ?thesis
    by (simp add: toCamelCase_words_def remove_chars_def split_runs_def is_separator_eq)
qed

lemma split_words_body:
  assumes "w \<noteq> []" "\<forall>c\<in>set w. is_alnum c"
    and "\<forall>(sep, v)\<in>set rest. sep \<noteq> [] \<and> (\<forall>c\<in>set sep. is_separator c) \<and>
           v \<noteq> [] \<and> (\<forall>c\<in>set v. is_alnum c)"
    and "\<forall>c\<in>set post. is_separator c"
  shows "split_runs_from is_separator [] (w @ concat (map (\<lambda>(sep, v). sep @ v) rest) @ post) =
           w # map snd rest @ (if post = [] then [] else [[]])"
  using assms
proof (induction rest arbitrary: w)
  case Nil
  from Nil(2) have "\<forall>c\<in>set w. \<not> is_separator c" by (blast dest: alnum_not_separator)
  then have "split_runs_from is_separator [] (w @ post) = split_runs_from is_separator w post"
    using split_runs_from_word [of w is_separator "[]" post] by simp
  also from Nil(4) have "\<dots> = (if post = [] then [w] else [w, []])"
    by (rule split_runs_from_all)
  finally show ?case by simp
next
  case (Cons p rest)
  obtain sep v where p: "p = (sep, v)" by (cases p)
  from Cons(4) p have sep: "sep \<noteq> []" "\<forall>c\<in>set sep. is_separator c"
    and v: "v \<noteq> []" "\<forall>c\<in>set v. is_alnum c"
    and rest: "\<forall>(sep, v)\<in>set rest. sep \<noteq> [] \<and> (\<forall>c\<in>set sep. is_separator c) \<and>
           v \<noteq> [] \<and> (\<forall>c\<in>set v. is_alnum c)"
    by auto
  let ?X = "v @ concat (map (\<lambda>(sep, v). sep @ v) rest) @ post"
  from v have hdX: "?X = [] \<or> \<not> is_separator (hd ?X)"
    by (cases v) (auto dest: alnum_not_separator)
  from Cons(3) have "\<forall>c\<in>set w. \<not> is_separator c" by (blast dest: alnum_not_separator)
  then have "split_runs_from is_separator [] (w @ sep @ ?X) = split_runs_from is_separator w (sep @ ?X)"
    using split_runs_from_word [of w is_separator "[]" "sep @ ?X"] by simp
  also have "\<dots> = w # split_runs_from is_separator [] ?X"
    using sep hdX by (rule split_runs_from_sep)
  also have "split_runs_from is_separator [] ?X = v # map snd rest @ (if post = [] then [] else [[]])"
    using v rest Cons(5) by (rule Cons.IH)
  finally show ?case by (simp add: p)
qed

lemma camel_words_of_words:
  assumes "w \<noteq> []" "\<forall>c\<in>set w. is_alnum c"
    and "\<forall>(sep, v)\<in>set rest. sep \<noteq> [] \<and> (\<forall>c\<in>set sep. is_separator c) \<and>
           v \<noteq> [] \<and> (\<forall>c\<in>set v. is_alnum c)"
    and "\<forall>c\<in>set pre. is_separator c" "\<forall>c\<in>set post. is_separator c"
  shows "toCamelCase_words (pre @ w @ concat (map (\<lambda>(sep, v). sep @ v) rest) @ post) =
           w # map snd rest"
proof -
  let ?X = "w @ concat (map (\<lambda>(sep, v). sep @ v) rest) @ post"
  have X: "split_runs_from is_separator [] ?X = w # map snd rest @ (if post = [] then [] else [[]])"
    using assms(1,2,3,5) by (rule split_words_body)
  from assms(1,2) have hdX: "?X = [] \<or> \<not> is_separator (hd ?X)"
    by (cases w) (auto dest: alnum_not_separator)
  have chars: "\<forall>c\<in>set (pre @ ?X). is_alnum c \<or> is_separator c"
    using assms(2,3,4,5) by fastforce
  have nonempty: "filter (\<lambda>w. w \<noteq> []) (map snd rest) = map snd rest"
    using assms(3) by (intro filter_True) fastforce
  have "filter (\<lambda>w. w \<noteq> []) (split_runs_from is_separator [] (pre @ ?X)) = w # map snd rest"
  proof (cases "pre = []")
    case True
    with X assms(1) nonempty show ?thesis by simp
  next
    case False
    from False assms(4) hdX
    have "split_runs_from is_separator [] (pre @ ?X) = [] # split_runs_from is_separator [] ?X"
      by (rule split_runs_from_sep)
    with X assms(1) nonempty show ?thesis by simp
  qed
  with camel_words_split [OF chars] show ?thesis by simp
qed

subsection \<open>Rendering camel words\<close>

lemma camel_word_later:
  "0 < k \<Longrightarrow> map camel_word (zip ws [k ..< k + length ws]) =
      map (\<lambda>w. toUpperCase (charAt w 0) @ toLowerCase (slice w 1)) ws"
proof (induction ws arbitrary: k)
  case Nil
  then show ?case by simp
next
  case (Cons w ws)
  have "[k ..< k + length (w # ws)] = k # [Suc k ..< Suc k + length ws]"
    using upt_conv_Cons [of k "k + length (w # ws)"] by simp
  moreover from Cons(2) have "camel_word (w, k) = toUpperCase (charAt w 0) @ toLowerCase (slice w 1)"
    by (simp add: camel_word_def)
  moreover have "map camel_word (zip ws [Suc k ..< Suc k + length ws]) =
      map (\<lambda>w. toUpperCase (charAt w 0) @ toLowerCase (slice w 1)) ws"
    by (rule Cons.IH) simp
  ultimately show ?case by simp
qed

lemma camel_render:
  "map camel_word (zip (w # ws) [0 ..< length (w # ws)]) =
     toLowerCase w # map (\<lambda>w. toUpperCase (charAt w 0) @ toLowerCase (slice w 1)) ws"
proof -
  have "[0 ..< length (w # ws)] = 0 # [1 ..< 1 + length ws]"
    using upt_conv_Cons [of 0 "length (w # ws)"] by simp
  moreover have "camel_word (w, 0) = toLowerCase w" by (simp add: camel_word_def)
  moreover have "map camel_word (zip ws [1 ..< 1 + length ws]) =
      map (\<lambda>w. toUpperCase (charAt w 0) @ toLowerCase (slice w 1)) ws"
    by (rule camel_word_later) simp
  ultimately show ?thesis by simp
qed

lemma capitalize_nonempty:
  "w \<noteq> [] \<Longrightarrow> toUpperCase (charAt w 0) @ toLowerCase (slice w 1) = upper_char (hd w) # toLowerCase (tl w)"
  by (cases w) (simp_all add: toUpperCase_def charAt_def slice_def)

lemma camel_of_words:
  assumes "w \<noteq> []" "\<forall>c\<in>set w. is_alnum c"
    and "\<forall>(sep, v)\<in>set rest. sep \<noteq> [] \<and> (\<forall>c\<in>set sep. is_separator c) \<and>
           v \<noteq> [] \<and> (\<forall>c\<in>set v. is_alnum c)"
    and "\<forall>c\<in>set pre. is_separator c" "\<forall>c\<in>set post. is_separator c"
  shows "toCamelCase (JString (pre @ w @ concat (map (\<lambda>(sep, v). sep @ v) rest) @ post)) =
           Inr (toLowerCase w @ concat (map (\<lambda>(sep, v). upper_char (hd v) # toLowerCase (tl v)) rest))"
proof -
  let ?s = "pre @ w @ concat (map (\<lambda>(sep, v). sep @ v) rest) @ post"
  from assms(1,2) have "\<exists>c\<in>set ?s. \<not> is_whitespace c"
    by (cases w) (auto dest: alnum_not_whitespace)
  then have t: "trim ?s \<noteq> []" by (simp only: trim_Nil_iff) blast
  have words: "toCamelCase_words ?s = w # map snd rest" using assms by (rule camel_words_of_words)
  have "map (\<lambda>w. toUpperCase (charAt w 0) @ toLowerCase (slice w 1)) (map snd rest) =
        map (\<lambda>(sep, v). upper_char (hd v) # toLowerCase (tl v)) rest"
    unfolding map_map
  proof (rule map_cong [OF refl])
    fix p assume p: "p \<in> set rest"
    obtain sep v where sv: "p = (sep, v)" by (cases p)
    with p assms(3) have "v \<noteq> []" by auto
    from capitalize_nonempty [OF this] sv show "((\<lambda>w. toUpperCase (charAt w 0) @ toLowerCase (slice w 1)) \<circ> snd) p =
        (case p of (sep, v) \<Rightarrow> upper_char (hd v) # toLowerCase (tl v))"
      by (simp add: capitalize_nonempty)
  qed
  then have "join [] (map camel_word (zip (w # map snd rest) [0 ..< length (w # map snd rest)])) =
      toLowerCase w @ concat (map (\<lambda>(sep, v). upper_char (hd v) # toLowerCase (tl v)) rest)"
    by (simp only: camel_render join_Nil concat.simps)
  with t words show ?thesis by (simp add: Let_def)
qed

subsection \<open>Words with characters that \<open>toCamelCase\<close> removes\<close>

lemma kept_char:
  "(is_word c \<or> is_whitespace c \<or> c = CHR ''-'') \<longleftrightarrow> (is_alnum c \<or> is_separator c)"
  by (auto simp: is_word_def is_alnum_def is_separator_def)

lemma sanitize_filter:
  "remove_chars (\<lambda>c. \<not> (is_word c \<or> is_whitespace c \<or> c = CHR ''-'')) s =
     filter (\<lambda>c. is_alnum c \<or> is_separator c) s"
  by (simp add: remove_chars_def kept_char)

lemma camel_words_sanitized:
  "toCamelCase_words (filter (\<lambda>c. is_alnum c \<or> is_separator c) s) = toCamelCase_words s"
  by (simp only: toCamelCase_words_def sanitize_filter filter_filter conj_absorb)

lemma filter_word:
  assumes "\<forall>c\<in>set v. \<not> is_separator c"
  shows "filter (\<lambda>c. is_alnum c \<or> is_separator c) v = filter is_alnum v"
  using assms by (intro filter_cong) auto

lemma sanitize_body:
  assumes "\<forall>(sep, v)\<in>set rest. \<forall>c\<in>set v. \<not> is_separator c"
  shows "filter (\<lambda>c. is_alnum c \<or> is_separator c) (concat (map (\<lambda>(sep, v). sep @ v) rest)) =
     concat (map (\<lambda>(sep, v). sep @ v)
       (map (\<lambda>(sep, v). (filter (\<lambda>c. is_alnum c \<or> is_separator c) sep, filter is_alnum v)) rest))"
  using assms
proof (induction rest)
  case Nil
  then show ?case by simp
next
  case (Cons p rest)
  obtain sep v where p: "p = (sep, v)" by (cases p)
  with Cons(2) have "\<forall>c\<in>set v. \<not> is_separator c" by simp
  then have v: "filter (\<lambda>c. is_alnum c \<or> is_separator c) v = filter is_alnum v"
    by (rule filter_word)
  from Cons(2) have "\<forall>(sep, v)\<in>set rest. \<forall>c\<in>set v. \<not> is_separator c" by simp
  then have "filter (\<lambda>c. is_alnum c \<or> is_separator c) (concat (map (\<lambda>(sep, v). sep @ v) rest)) =
     concat (map (\<lambda>(sep, v). sep @ v)
       (map (\<lambda>(sep, v). (filter (\<lambda>c. is_alnum c \<or> is_separator c) sep, filter is_alnum v)) rest))"
    by (rule Cons.IH)
  with v p show ?case by simp
qed

lemma filter_alnum_nonempty: "\<exists>c\<in>set v. is_alnum c \<Longrightarrow> filter is_alnum v \<noteq> []"
  by (simp add: filter_empty_conv)

lemma camel_of_marked_words:
  assumes w: "\<forall>c\<in>set w. \<not> is_separator c" "\<exists>c\<in>set w. is_alnum c"
    and rest: "\<forall>(sep, v)\<in>set rest.
           (\<forall>c\<in>set sep. \<not> is_alnum c) \<and> (\<exists>c\<in>set sep. is_separator c) \<and>
           (\<forall>c\<in>set v. \<not> is_separator c) \<and> (\<exists>c\<in>set v. is_alnum c)"
    and pre: "\<forall>c\<in>set pre. \<not> is_alnum c" and post: "\<forall>c\<in>set post. \<not> is_alnum c"
  shows "toCamelCase (JString (pre @ w @ concat (map (\<lambda>(sep, v). sep @ v) rest) @ post)) =
           Inr (toLowerCase (filter is_alnum w) @
                concat (map (\<lambda>(sep, v). upper_char (hd (filter is_alnum v)) #
                                          toLowerCase (tl (filter is_alnum v))) rest))"
proof -
  let ?K = "\<lambda>c. is_alnum c \<or> is_separator c"
  let ?s = "pre @ w @ concat (map (\<lambda>(sep, v). sep @ v) rest) @ post"
  let ?rest = "map (\<lambda>(sep, v). (filter ?K sep, filter is_alnum v)) rest"
  let ?t = "filter ?K pre @ filter is_alnum w @ concat (map (\<lambda>(sep, v). sep @ v) ?rest) @ filter ?K post"
  have "\<forall>(sep, v)\<in>set rest. \<forall>c\<in>set v. \<not> is_separator c"
  proof
    fix p assume "p \<in> set rest"
    with rest have "case p of (sep, v) \<Rightarrow>
           (\<forall>c\<in>set sep. \<not> is_alnum c) \<and> (\<exists>c\<in>set sep. is_separator c) \<and>
           (\<forall>c\<in>set v. \<not> is_separator c) \<and> (\<exists>c\<in>set v. is_alnum c)" by (rule bspec)
    then show "case p of (sep, v) \<Rightarrow> \<forall>c\<in>set v. \<not> is_separator c"
      by (cases p) simp
  qed
  then have body: "filter ?K (concat (map (\<lambda>(sep, v). sep @ v) rest)) =
      concat (map (\<lambda>(sep, v). sep @ v) ?rest)"
    by (rule sanitize_body)
  have t: "filter ?K ?s = ?t"
    by (simp only: filter_append body filter_word [OF w(1)])
  have w': "filter is_alnum w \<noteq> []" "\<forall>c\<in>set (filter is_alnum w). is_alnum c"
    using w(2) by (simp_all add: filter_empty_conv)
  have rest': "\<forall>(sep, v)\<in>set ?rest. sep \<noteq> [] \<and> (\<forall>c\<in>set sep. is_separator c) \<and>
           v \<noteq> [] \<and> (\<forall>c\<in>set v. is_alnum c)"
  proof
    fix p assume "p \<in> set ?rest"
    then obtain q where q: "q \<in> set rest"
      and pq: "p = (case q of (sep, v) \<Rightarrow> (filter ?K sep, filter is_alnum v))"
      by (auto simp only: set_map)
    obtain sep v where sv: "q = (sep, v)" by (cases q)
    with pq have p: "p = (filter ?K sep, filter is_alnum v)" by simp
    from rest q have "case q of (sep, v) \<Rightarrow>
           (\<forall>c\<in>set sep. \<not> is_alnum c) \<and> (\<exists>c\<in>set sep. is_separator c) \<and>
           (\<forall>c\<in>set v. \<not> is_separator c) \<and> (\<exists>c\<in>set v. is_alnum c)" by (rule bspec)
    with sv have 1: "\<forall>c\<in>set sep. \<not> is_alnum c" and 2: "\<exists>c\<in>set sep. is_separator c"
      and 3: "\<exists>c\<in>set v. is_alnum c" by simp_all
    from 2 have a: "filter ?K sep \<noteq> []" by (simp add: filter_empty_conv) blast
    from 1 have b: "\<forall>c\<in>set (filter ?K sep). is_separator c" by simp blast
    from 3 have c: "filter is_alnum v \<noteq> []" by (rule filter_alnum_nonempty)
    have d: "\<forall>c\<in>set (filter is_alnum v). is_alnum c" by simp
    from a b c d
    show "case p of (sep, v) \<Rightarrow> sep \<noteq> [] \<and> (\<forall>c\<in>set sep. is_separator c) \<and>
           v \<noteq> [] \<and> (\<forall>c\<in>set v. is_alnum c)"
      unfolding p prod.case by (intro conjI)
  qed
  have pre': "\<forall>c\<in>set (filter ?K pre). is_separator c" using pre by simp blast
  have post': "\<forall>c\<in>set (filter ?K post). is_separator c" using post by simp blast
  have words_t: "toCamelCase_words ?t = filter is_alnum w # map snd ?rest"
    using w' rest' pre' post' by (rule camel_words_of_words)
  have sanitized: "toCamelCase (JString ?t) =
      Inr (toLowerCase (filter is_alnum w) @
           concat (map (\<lambda>(sep, v). upper_char (hd v) # toLowerCase (tl v)) ?rest))"
    using w' rest' pre' post' by (rule camel_of_words)
  have render: "map (\<lambda>(sep, v). upper_char (hd v) # toLowerCase (tl v)) ?rest =
      map (\<lambda>(sep, v). upper_char (hd (filter is_alnum v)) # toLowerCase (tl (filter is_alnum v))) rest"
    by (simp add: case_prod_beta o_def)
  have words: "toCamelCase_words ?s = toCamelCase_words ?t"
    using camel_words_sanitized [of ?s] by (simp only: t)
  from w(2) obtain a where a: "a \<in> set w" "is_alnum a" by blast
  then have nws: "\<not> is_whitespace a" by (simp add: alnum_not_whitespace)
  from a(1) have "a \<in> set ?s" by simp
  with nws have "\<not> (\<forall>c\<in>set ?s. is_whitespace c)" by blast
  then have trim_s: "trim ?s \<noteq> []" by (simp only: trim_Nil_iff not_False_eq_True)
  from a have "a \<in> set ?t" by simp
  with nws have "\<not> (\<forall>c\<in>set ?t. is_whitespace c)" by blast
  then have trim_t: "trim ?t \<noteq> []" by (simp only: trim_Nil_iff not_False_eq_True)
  from trim_s trim_t words have "toCamelCase (JString ?s) = toCamelCase (JString ?t)"
    by (simp add: Let_def)
  then have "toCamelCase (JString ?s) =
      Inr (toLowerCase (filter is_alnum w) @
           concat (map (\<lambda>(sep, v). upper_char (hd v) # toLowerCase (tl v)) ?rest))"
    using sanitized by (rule trans)
  then show ?thesis by (simp only: render)
qed

section \<open>Applying a conversion to its own output\<close>

subsection \<open>Applying \<open>toSnakeCase\<close> again\<close>

lemma lower_char_toLowerCase: "c \<in> set (toLowerCase s) \<Longrightarrow> lower_char c = c"
  by (auto simp: toLowerCase_def lower_char_idem)

lemma snake_again:
  assumes "toSnakeCase v = Inr y"
  shows "toSnakeCase (JString y) = Inr y"
proof (cases v)
  case (JString s)
  with assms have y: "y = replace_runs is_whitespace ''_'' (toLowerCase (trim s))" by simp
  have nows: "\<forall>c\<in>set y. \<not> is_whitespace c"
    using assms by (blast dest: snake_output_chars)
  have low: "\<forall>c\<in>set y. lower_char c = c"
  proof
    fix c assume "c \<in> set y"
    with y have "c \<in> set ''_'' \<or> c \<in> set (toLowerCase (trim s))"
      by (blast dest: set_replace_runs)
    then show "lower_char c = c"
      by (auto simp: lower_char_underscore dest: lower_char_toLowerCase)
  qed
  from nows have "trim y = y" by (rule trim_id)
  moreover from low have "toLowerCase y = y" by (rule toLowerCase_id)
  moreover from nows have "replace_runs is_whitespace ''_'' y = y" by (rule replace_runs_id)
  ultimately show ?thesis by simp
qed (use assms in auto)

subsection \<open>Applying \<open>toCamelCase\<close> and \<open>toDotCase\<close> again\<close>

lemma camel_one_word:
  assumes "y \<noteq> []" "\<forall>c\<in>set y. is_alnum c"
  shows "toCamelCase (JString y) = Inr (toLowerCase y)"
  using camel_of_words [OF assms, of "[]" "[]" "[]"] by simp

lemma camel_output_nonempty:
  assumes "toCamelCase v = Inr y"
  shows "y \<noteq> []"
proof (cases v)
  case (JString s)
  let ?ws = "toCamelCase_words s"
  from assms JString have ne: "?ws \<noteq> []"
    and y: "y = join [] (map camel_word (zip ?ws [0 ..< length ?ws]))"
    by (simp_all add: Let_def split: if_splits)
  from ne obtain w ws where ws: "?ws = w # ws" by (cases ?ws) auto
  then have "w \<in> set ?ws" by simp
  then have "w \<noteq> []" by (rule camel_words_nonempty)
  with y ws camel_render [of w ws] show ?thesis
    by (simp add: join_Nil toLowerCase_def)
qed (use assms in auto)

lemma camel_again:
  assumes "toCamelCase v = Inr y"
  shows "toCamelCase (JString y) = Inr (toLowerCase y)"
proof (rule camel_one_word)
  from assms show "y \<noteq> []" by (rule camel_output_nonempty)
  from assms show "\<forall>c\<in>set y. is_alnum c" by (blast dest: camel_output_alnum)
qed

lemma join_first: "set w \<subseteq> set (join sep (w # ws))"
  by (cases ws) auto

lemma dot_output_facts:
  assumes "toDotCase v = Inr y"
  shows "\<exists>c\<in>set y. is_alnum c" and "\<forall>c\<in>set y. lower_char c = c"
proof -
  from assms obtain s where v: "v = JString s" by (cases v) auto
  let ?ws = "toDotCase_words s"
  from assms v have ne: "?ws \<noteq> []"
    and y: "y = join ''.'' (map (\<lambda>word. toLowerCase word) ?ws)"
    by (simp_all add: Let_def split: if_splits)
  from ne obtain w ws where ws: "?ws = w # ws" by (cases ?ws) auto
  then have w: "w \<in> set (toCamelCase_words s)" by (simp add: dot_words_camel)
  then have "w \<noteq> []" by (rule camel_words_nonempty)
  then obtain c where c: "c \<in> set (toLowerCase w)" by (cases w) (auto simp: toLowerCase_def)
  from w have "\<forall>c\<in>set w. is_alnum c" by (blast intro: camel_words_alnum)
  with c have "is_alnum c" by (blast dest: alnum_toLowerCase)
  moreover from c y ws join_first [of "toLowerCase w" "''.''" "map (\<lambda>word. toLowerCase word) ws"]
  have "c \<in> set y" by auto
  ultimately show "\<exists>c\<in>set y. is_alnum c" by blast
  show "\<forall>c\<in>set y. lower_char c = c"
  proof
    fix c assume "c \<in> set y"
    with y set_join [of "''.''" "map (\<lambda>word. toLowerCase word) ?ws"]
    have "c = CHR ''.'' \<or> (\<exists>w\<in>set ?ws. c \<in> set (toLowerCase w))" by auto
    then show "lower_char c = c"
    proof
      assume "c = CHR ''.''"
      then show ?thesis by (intro code_inj) (simp add: to_code)
    next
      assume "\<exists>w\<in>set ?ws. c \<in> set (toLowerCase w)"
      then show ?thesis by (blast dest: lower_char_toLowerCase)
    qed
  qed
qed

lemma dot_again:
  assumes "toDotCase v = Inr y"
  shows "toDotCase (JString y) = Inr (remove_chars (\<lambda>c. c = CHR ''.'') y)"
proof -
  let ?t = "remove_chars (\<lambda>c. c = CHR ''.'') y"
  have chars: "\<forall>c\<in>set y. is_alnum c \<or> c = CHR ''.''"
    using assms by (blast dest: dot_output_chars)
  from dot_output_facts [OF assms] obtain a where a: "a \<in> set y" "is_alnum a" by blast
  then have "\<exists>c\<in>set y. \<not> is_whitespace c" by (blast dest: alnum_not_whitespace)
  then have trim: "trim y \<noteq> []" by (simp only: trim_Nil_iff) blast
  have san: "remove_chars (\<lambda>c. \<not> (is_word c \<or> is_whitespace c \<or> c = CHR ''-'')) y = ?t"
    unfolding remove_chars_def
  proof (rule filter_cong [OF refl])
    fix c assume "c \<in> set y"
    with chars have "is_alnum c \<or> c = CHR ''.''" by blast
    then show "(\<not> \<not> (is_word c \<or> is_whitespace c \<or> c = CHR ''-'')) = (\<not> c = CHR ''.'')"
      by (auto simp: to_code)
  qed
  have t_alnum: "\<forall>c\<in>set ?t. is_alnum c" using chars by (auto simp: remove_chars_def)
  from a have "a \<in> set ?t" by (auto simp: remove_chars_def to_code)
  then have t_ne: "?t \<noteq> []" by auto
  from t_alnum have "\<forall>c\<in>set ?t. \<not> is_separator c" by (blast dest: alnum_not_separator)
  then have "split_runs_from is_separator [] (?t @ []) = split_runs_from is_separator ([] @ ?t) []"
    by (rule split_runs_from_word)
  then have "split_runs_from is_separator [] ?t = [?t]" by simp
  with san t_ne have words: "toDotCase_words y = [?t]"
    by (simp add: toDotCase_words_def split_runs_def is_separator_eq)
  have "\<forall>c\<in>set ?t. lower_char c = c"
    using dot_output_facts(2) [OF assms] by (simp add: remove_chars_def)
  then have "toLowerCase ?t = ?t" by (rule toLowerCase_id)
  with trim words show ?thesis by (simp add: Let_def)
qed

subsection \<open>Neighbouring characters\<close>

lemma has_adjacent_Cons:
  "has_adjacent p q (a # xs) \<longleftrightarrow> (xs \<noteq> [] \<and> p a \<and> q (hd xs)) \<or> has_adjacent p q xs"
  by (cases xs) auto

lemma has_adjacent_append:
  "has_adjacent p q (xs @ ys) \<longleftrightarrow>
     has_adjacent p q xs \<or> has_adjacent p q ys \<or> (xs \<noteq> [] \<and> ys \<noteq> [] \<and> p (last xs) \<and> q (hd ys))"
proof (induction xs)
  case Nil
  then show ?case by simp
next
  case (Cons a xs)
  show ?case
  proof (cases "xs = []")
    case True
    then show ?thesis by (auto simp: has_adjacent_Cons [of p q a ys])
  next
    case False
    with Cons show ?thesis
      by (auto simp: has_adjacent_Cons [of p q a "xs @ ys"] has_adjacent_Cons [of p q a xs])
  qed
qed

lemma has_adjacent_rev: "has_adjacent p q (rev s) \<longleftrightarrow> has_adjacent q p s"
proof (induction s)
  case Nil
  then show ?case by simp
next
  case (Cons a s)
  then show ?case
    by (simp add: has_adjacent_append has_adjacent_Cons [of q p a s] last_rev) blast
qed

lemma has_adjacent_dropWhile: "has_adjacent p q (dropWhile P s) \<Longrightarrow> has_adjacent p q s"
proof -
  assume "has_adjacent p q (dropWhile P s)"
  then have "has_adjacent p q (takeWhile P s @ dropWhile P s)"
    by (simp only: has_adjacent_append) simp
  then show ?thesis by simp
qed

lemma has_adjacent_both_ends:
  assumes "has_adjacent p p (rev (dropWhile P (rev (dropWhile P s))))"
  shows "has_adjacent p p s"
proof -
  from assms have "has_adjacent p p (dropWhile P (rev (dropWhile P s)))"
    by (simp only: has_adjacent_rev)
  then have "has_adjacent p p (rev (dropWhile P s))" by (rule has_adjacent_dropWhile)
  then have "has_adjacent p p (dropWhile P s)" by (simp only: has_adjacent_rev)
  then show ?thesis by (rule has_adjacent_dropWhile)
qed

lemma hyphenate_id: "\<not> has_adjacent p q s \<Longrightarrow> hyphenate p q s = s"
  by (induction p q s rule: hyphenate.induct) auto

subsection \<open>Collapsing runs\<close>

lemma replace_runs_start:
  "s \<noteq> [] \<Longrightarrow> \<not> cls (hd s) \<Longrightarrow> replace_runs cls r s \<noteq> [] \<and> hd (replace_runs cls r s) = hd s"
  by (cases s) auto

lemma replace_runs_no_adjacent: "\<not> has_adjacent cls cls (replace_runs cls [d] s)"
proof (induction cls "[d]" s rule: replace_runs.induct)
  case (1 cls)
  then show ?case by simp
next
  case (2 cls c cs)
  show ?case
  proof (cases "cls c")
    case True
    let ?rest = "replace_runs cls [d] (dropWhile cls cs)"
    from True 2 have ih: "\<not> has_adjacent cls cls ?rest" by simp
    have "?rest = [] \<or> \<not> cls (hd ?rest)"
    proof (cases "dropWhile cls cs = []")
      case True
      have "?rest = []" by (simp only: True replace_runs.simps)
      then show ?thesis by blast
    next
      case False
      then have "\<not> cls (hd (dropWhile cls cs))" by (rule hd_dropWhile)
      with False replace_runs_start [of "dropWhile cls cs" cls "[d]"] show ?thesis by simp
    qed
    with ih True show ?thesis by (auto simp: has_adjacent_Cons [of cls cls d ?rest])
  next
    case False
    with 2 show ?thesis
      by (simp add: has_adjacent_Cons [of cls cls c "replace_runs cls [d] cs"])
  qed
qed

lemma replace_runs_collapsed:
  assumes "\<And>c. cls c \<Longrightarrow> c = d"
  shows "\<not> has_adjacent cls cls s \<Longrightarrow> replace_runs cls [d] s = s"
proof (induction s)
  case Nil
  then show ?case by simp
next
  case (Cons c cs)
  from Cons(2) have rest: "\<not> has_adjacent cls cls cs"
    by (simp add: has_adjacent_Cons [of cls cls c cs])
  show ?case
  proof (cases "cls c")
    case True
    with Cons(2) have "cs = [] \<or> \<not> cls (hd cs)"
      by (auto simp: has_adjacent_Cons [of cls cls c cs])
    then have "dropWhile cls cs = cs" by (rule dropWhile_none)
    with True assms [of c] Cons.IH [OF rest] show ?thesis by simp
  next
    case False
    with Cons.IH [OF rest] show ?thesis by simp
  qed
qed

subsection \<open>Applying \<open>toKebabCase\<close> again\<close>

lemma kebab_chain_again:
  assumes letter_digit: "\<not> has_adjacent is_letter is_digit (kebab_chain s)"
    and digit_letter: "\<not> has_adjacent is_digit is_letter (kebab_chain s)"
  shows "kebab_chain (kebab_chain s) = kebab_chain s"
proof -
  define y where "y = kebab_chain s"
  define z where "z = toLowerCase
           (remove_chars (\<lambda>c. \<not> (is_word c \<or> c = CHR ''-''))
             (replace_runs (\<lambda>c. is_whitespace c \<or> c = CHR ''_'') ''-''
               (hyphenate is_digit is_letter
                 (hyphenate is_letter is_digit
                   (hyphenate is_lower is_upper s)))))"
  have y: "y = strip_hyphens (replace_runs is_hyphen ''-'' z)"
    by (simp add: y_def z_def kebab_chain_def)
  have chars: "\<forall>c\<in>set y. is_lower c \<or> is_digit c \<or> c = CHR ''-''"
    unfolding y_def by (blast dest: kebab_chain_chars)
  have "\<forall>c\<in>set y. \<not> is_upper c" using chars by (auto simp: to_code)
  then have 1: "hyphenate is_lower is_upper y = y" by (rule hyphenate_no_right)
  from letter_digit have 2: "hyphenate is_letter is_digit y = y"
    unfolding y_def by (rule hyphenate_id)
  from digit_letter have 3: "hyphenate is_digit is_letter y = y"
    unfolding y_def by (rule hyphenate_id)
  have "\<forall>c\<in>set y. \<not> (is_whitespace c \<or> c = CHR ''_'')" using chars by (auto simp: to_code)
  then have 4: "replace_runs (\<lambda>c. is_whitespace c \<or> c = CHR ''_'') ''-'' y = y"
    by (rule replace_runs_id)
  have "\<forall>c\<in>set y. is_word c \<or> c = CHR ''-''" using chars by (auto simp: to_code)
  then have 5: "remove_chars (\<lambda>c. \<not> (is_word c \<or> c = CHR ''-'')) y = y"
    by (simp add: remove_chars_def)
  have "\<forall>c\<in>set y. lower_char c = c"
  proof
    fix c assume "c \<in> set y"
    with chars have "is_lower c \<or> is_digit c \<or> c = CHR ''-''" by blast
    then show "lower_char c = c" by (intro code_inj) (auto simp: to_code)
  qed
  then have 6: "toLowerCase y = y" by (rule toLowerCase_id)
  have "\<not> has_adjacent is_hyphen is_hyphen (replace_runs is_hyphen ''-'' z)"
    by (rule replace_runs_no_adjacent)
  then have "\<not> has_adjacent is_hyphen is_hyphen y"
    unfolding y strip_hyphens_def by (blast dest: has_adjacent_both_ends)
  then have 7: "replace_runs is_hyphen ''-'' y = y"
    by (rule replace_runs_collapsed [rotated]) (simp add: is_hyphen_def)
  have 8: "strip_hyphens y = y"
    unfolding y strip_hyphens_def by (rule both_ends_idem)
  have "kebab_chain y = y"
    by (simp only: kebab_chain_def [of y] 1 2 3 4 5 6 7 8)
  then show ?thesis by (simp only: y_def)
qed

lemma kebab_again:
  assumes "toKebabCase v = Inr y"
    and "\<not> has_adjacent is_letter is_digit y" "\<not> has_adjacent is_digit is_letter y"
  shows "toKebabCase (JString y) = Inr y"
proof (cases "y = []")
  case True
  then show ?thesis by (simp add: toKebabCase_def)
next
  case False
  with assms(1) obtain s where "v = JString s" and y: "y = kebab_chain s"
    by (cases v) (auto simp: toKebabCase_def split: if_splits)
  from assms(2,3) have "kebab_chain (kebab_chain s) = kebab_chain s"
    unfolding y by (rule kebab_chain_again)
  with False y show ?thesis by (simp add: toKebabCase_def)
qed

section \<open>Input validation\<close>

text \<open>
  Claim C1, as amended. Only \<open>toCamelCase\<close> and \<open>toDotCase\<close> validate their
  argument: \<open>null\<close> raises NullInput, \<open>undefined\<close> raises UndefinedInput, every other
  value that is not a string raises TypeMismatch with the result of \<open>typeof\<close> in the
  message, and a string that is empty after trimming raises EmptyInput. No value is returned
  in these cases.
\<close>

theorem validation_camel_dot:
  "toCamelCase JNull = Inl NullInput \<and> toDotCase JNull = Inl NullInput \<and>
   toCamelCase JUndefined = Inl UndefinedInput \<and> toDotCase JUndefined = Inl UndefinedInput \<and>
   (v \<noteq> JNull \<and> v \<noteq> JUndefined \<and> (\<forall>s. v \<noteq> JString s) \<longrightarrow>
      toCamelCase v = Inl (TypeMismatch (typeof v)) \<and>
      toDotCase v = Inl (TypeMismatch (typeof v))) \<and>
   (trim s = [] \<longrightarrow>
      toCamelCase (JString s) = Inl EmptyInput \<and> toDotCase (JString s) = Inl EmptyInput)"
  by (cases v) auto

theorem validation_camel_dot_witness:
  "(JBoolean True \<noteq> JNull \<and> JBoolean True \<noteq> JUndefined \<and> (\<forall>s. JBoolean True \<noteq> JString s)) \<and>
   trim ''  '' = [] \<and>
   toCamelCase (JBoolean True) = Inl (TypeMismatch ''boolean'') \<and>
   toDotCase (JBoolean True) = Inl (TypeMismatch ''boolean'') \<and>
   toCamelCase (JString ''  '') = Inl EmptyInput \<and>
   toDotCase (JString ''  '') = Inl EmptyInput"
proof -
  have t: "trim ''  '' = []" by code_simp
  show ?thesis using validation_camel_dot [of "JBoolean True" "''  ''"] t by simp
qed

text \<open>
  Claim C1 as stated fails for the other two entry points: \<open>toKebabCase\<close> returns the
  empty string for \<open>null\<close>, \<open>undefined\<close>, a number and a blank string, and
  \<open>toSnakeCase\<close> returns the empty string for a blank string.
\<close>

theorem validation_counterexample:
  "toKebabCase JNull = Inr [] \<and> toKebabCase JUndefined = Inr [] \<and>
   toKebabCase (JNumber NaN) = Inr [] \<and> toKebabCase (JString ''  '') = Inr [] \<and>
   toSnakeCase (JString ''  '') = Inr []"
  by code_simp

text \<open>
  Claim C9. \<open>toKebabCase\<close> returns the empty string, and so raises nothing, when its
  argument is \<open>null\<close>, \<open>undefined\<close>, not a string, the empty string, or any other falsy
  value.
\<close>

theorem toKebabCase_guard:
  "v = JNull \<or> v = JUndefined \<or> (\<forall>s. v \<noteq> JString s) \<or> v = JString [] \<or> \<not> truthy v
   \<Longrightarrow> toKebabCase v = Inr []"
  by (cases v) (auto simp: toKebabCase_def)

theorem toKebabCase_guard_witness:
  "(JNumber (Finite False 0 0) = JNull \<or> JNumber (Finite False 0 0) = JUndefined \<or>
    (\<forall>s. JNumber (Finite False 0 0) \<noteq> JString s) \<or> JNumber (Finite False 0 0) = JString [] \<or>
    \<not> truthy (JNumber (Finite False 0 0))) \<and>
   toKebabCase (JNumber (Finite False 0 0)) = Inr []"
  using toKebabCase_guard [of "JNumber (Finite False 0 0)"] by simp



section \<open>Documented examples\<close>

text \<open>
  Claim C2. The examples of \<open>toDotCase\<close>: the source splits on white space, underscores
  and hyphens only, so \<open>"HelloWorld"\<close> is one word and comes out as \<open>"helloworld"\<close>,
  not as the documented \<open>"hello.world"\<close>; the other two examples come out as documented.
\<close>

theorem toDotCase_examples:
  "toDotCase (JString ''HelloWorld'') = Inr ''helloworld'' \<and>
   toDotCase (JString ''hello world'') = Inr ''hello.world'' \<and>
   toDotCase (JString ''hello world! test'') = Inr ''hello.world.test''"
  by code_simp

text \<open>
  Claim C3. The examples of \<open>toKebabCase\<close>: \<open>"HTTPSConnection"\<close> has no lowercase letter
  directly before an uppercase one, so no hyphen is inserted and the result is
  \<open>"httpsconnection"\<close>, not the documented \<open>"https-connection"\<close>; the other two examples
  come out as documented.
\<close>

theorem toKebabCase_examples:
  "toKebabCase (JString ''HTTPSConnection'') = Inr ''httpsconnection'' \<and>
   toKebabCase (JString ''helloWorld'') = Inr ''hello-world'' \<and>
   toKebabCase (JString ''user_full name!'') = Inr ''user-full-name''"
  by code_simp

theorem toKebabCase_examples_witness:
  "toKebabCase (JString ''HTTPSConnection'') \<noteq> Inr ''https-connection''"
  using toKebabCase_examples by simp

section \<open>No white space in any output\<close>

text \<open>
  Claim C7. Whenever one of the four conversions returns a value, the returned string has no
  white-space character.
\<close>

theorem output_no_whitespace:
  assumes "f = toSnakeCase \<or> f = toCamelCase \<or> f = toDotCase \<or> f = toKebabCase"
    and "f v = Inr out"
  shows "\<forall>c\<in>set out. \<not> is_whitespace c"
proof
  fix c assume c: "c \<in> set out"
  from assms(1) consider "f = toSnakeCase" | "f = toCamelCase" | "f = toDotCase" | "f = toKebabCase"
    by blast
  then show "\<not> is_whitespace c"
  proof cases
    case 1
    with assms(2) c show ?thesis by (auto dest: snake_output_chars)
  next
    case 2
    with assms(2) c have "is_alnum c" by (auto dest: camel_output_alnum)
    then show ?thesis by (rule alnum_not_whitespace)
  next
    case 3
    with assms(2) c have "is_alnum c \<or> c = CHR ''.''" by (auto dest: dot_output_chars)
    then show ?thesis by (auto simp: to_code)
  next
    case 4
    with assms(2) c have "is_lower c \<or> is_digit c \<or> c = CHR ''-''" by (auto dest: kebab_output_chars)
    then show ?thesis by (auto simp: to_code)
  qed
qed

theorem output_no_whitespace_witness:
  "toSnakeCase (JString ''a  b'') = Inr ''a_b'' \<and> list_all (\<lambda>c. \<not> is_whitespace c) ''a_b''"
proof -
  have e: "toSnakeCase (JString ''a  b'') = Inr ''a_b''" by code_simp
  from output_no_whitespace [of toSnakeCase "JString ''a  b''" "''a_b''"] e
  show ?thesis by (simp add: list_all_iff)
qed

section \<open>Inputs of punctuation only\<close>

text \<open>
  Claim C5, as amended. On a non-empty string of ASCII punctuation characters,
  \<open>toCamelCase\<close> and \<open>toDotCase\<close> raise NoValidCharacters, \<open>toKebabCase\<close> returns the
  empty string, and \<open>toSnakeCase\<close> returns the input itself, which is non-empty and is its
  own lowercase form.
\<close>

theorem punctuation_only:
  assumes "s \<noteq> []" "\<forall>c\<in>set s. is_punct c"
  shows "toCamelCase (JString s) = Inl NoValidCharacters \<and>
         toDotCase (JString s) = Inl NoValidCharacters \<and>
         toKebabCase (JString s) = Inr [] \<and>
         toSnakeCase (JString s) = Inr s \<and> toLowerCase s = s"
proof -
  from assms(1) punct_kebab_chain [OF assms(2)] have "toKebabCase (JString s) = Inr []"
    by (simp add: toKebabCase_def)
  with punct_camel [OF assms] punct_dot [OF assms] punct_snake [OF assms(2)]
  show ?thesis by simp
qed

theorem punctuation_only_witness:
  "''!!!'' \<noteq> [] \<and> list_all is_punct ''!!!'' \<and>
   toCamelCase (JString ''!!!'') = Inl NoValidCharacters \<and>
   toDotCase (JString ''!!!'') = Inl NoValidCharacters \<and>
   toKebabCase (JString ''!!!'') = Inr [] \<and>
   toSnakeCase (JString ''!!!'') = Inr ''!!!''"
proof -
  have p: "\<forall>c\<in>set ''!!!''. is_punct c" by (simp add: is_punct_def code_def)
  from punctuation_only [OF _ p] p show ?thesis by (simp add: list_all_iff)
qed

text \<open>
  Claim C5 as stated fails for \<open>toKebabCase\<close>, which raises nothing and returns the empty
  string for \<open>"!!!"\<close>.
\<close>

theorem punctuation_only_counterexample:
  "toKebabCase (JString ''!!!'') = Inr []"
  by code_simp

section \<open>Camel case\<close>

lemma camel_examples:
  "toCamelCase (JString ''hello world'') = Inr ''helloWorld''"
  "toCamelCase (JString ''hello_world'') = Inr ''helloWorld''"
  "toCamelCase (JString ''hello-world'') = Inr ''helloWorld''"
  "toCamelCase (JString ''hello__world'') = Inr ''helloWorld''"
  "toCamelCase (JString ''hello world! test'') = Inr ''helloWorldTest''"
  "toCamelCase (JString ''HelloWorld'') = Inr ''helloworld''"
  by code_simp+

text \<open>
  Claim C6. \<open>toCamelCase\<close> splits at runs of white space, underscores and hyphens only,
  one boundary for each run. The input is any sequence of words with a stretch between
  neighbours: a word is any string without a separator that has a letter or digit in it, so it
  may hold punctuation and case changes; a stretch is any string without letters and digits
  that has a separator in it; before the first and after the last word stands any string
  without letters and digits. The result is the first word, stripped of what is not a letter
  or digit, in lowercase, followed with nothing in between by each later word, stripped alike,
  with its first character in uppercase and its other characters in lowercase. So neither a
  removed character nor a case change is a boundary: \<open>"HelloWorld"\<close> is one word. The five
  documented examples come out as documented.
\<close>

theorem toCamelCase_rendering:
  assumes "\<forall>c\<in>set w. \<not> is_separator c" "\<exists>c\<in>set w. is_alnum c"
    and "\<forall>(sep, v)\<in>set rest.
           (\<forall>c\<in>set sep. \<not> is_alnum c) \<and> (\<exists>c\<in>set sep. is_separator c) \<and>
           (\<forall>c\<in>set v. \<not> is_separator c) \<and> (\<exists>c\<in>set v. is_alnum c)"
    and "\<forall>c\<in>set pre. \<not> is_alnum c" "\<forall>c\<in>set post. \<not> is_alnum c"
  shows "toCamelCase (JString (pre @ w @ concat (map (\<lambda>(sep, v). sep @ v) rest) @ post)) =
           Inr (toLowerCase (filter is_alnum w) @
                concat (map (\<lambda>(sep, v). upper_char (hd (filter is_alnum v)) #
                                          toLowerCase (tl (filter is_alnum v))) rest)) \<and>
         toCamelCase (JString ''hello world'') = Inr ''helloWorld'' \<and>
         toCamelCase (JString ''hello_world'') = Inr ''helloWorld'' \<and>
         toCamelCase (JString ''hello-world'') = Inr ''helloWorld'' \<and>
         toCamelCase (JString ''hello__world'') = Inr ''helloWorld'' \<and>
         toCamelCase (JString ''hello world! test'') = Inr ''helloWorldTest'' \<and>
         toCamelCase (JString ''HelloWorld'') = Inr ''helloworld''"
  using camel_of_marked_words [OF assms] camel_examples by (simp only: simp_thms)

theorem toCamelCase_rendering_witness:
  "list_all (\<lambda>c. \<not> is_separator c) ''us.er'' \<and> list_ex is_alnum ''us.er'' \<and>
   list_all (\<lambda>c. \<not> is_alnum c) ''! _'' \<and> list_ex is_separator ''! _'' \<and>
   list_all (\<lambda>c. \<not> is_separator c) ''full#Name'' \<and> list_ex is_alnum ''full#Name'' \<and>
   list_all (\<lambda>c. \<not> is_alnum c) ''-'' \<and> list_ex is_separator ''-'' \<and>
   list_all (\<lambda>c. \<not> is_separator c) ''x2'' \<and> list_ex is_alnum ''x2'' \<and>
   list_all (\<lambda>c. \<not> is_alnum c) ''?'' \<and> list_all (\<lambda>c. \<not> is_alnum c) ''!'' \<and>
   toCamelCase (JString (''?'' @ ''us.er'' @ ''! _'' @ ''full#Name'' @ ''-'' @ ''x2'' @ ''!'')) =
     Inr ''userFullnameX2''"
proof -
  have a: "list_all (\<lambda>c. \<not> is_separator c) ''us.er''" "list_ex is_alnum ''us.er''"
    "list_all (\<lambda>c. \<not> is_alnum c) ''! _''" "list_ex is_separator ''! _''"
    "list_all (\<lambda>c. \<not> is_separator c) ''full#Name''" "list_ex is_alnum ''full#Name''"
    "list_all (\<lambda>c. \<not> is_alnum c) ''-''" "list_ex is_separator ''-''"
    "list_all (\<lambda>c. \<not> is_separator c) ''x2''" "list_ex is_alnum ''x2''"
    "list_all (\<lambda>c. \<not> is_alnum c) ''?''" "list_all (\<lambda>c. \<not> is_alnum c) ''!''"
    by code_simp+
  have r: "toLowerCase (filter is_alnum ''us.er'') @
           concat (map (\<lambda>(sep, v). upper_char (hd (filter is_alnum v)) #
                                     toLowerCase (tl (filter is_alnum v)))
             [(''! _'', ''full#Name''), (''-'', ''x2'')]) = ''userFullnameX2''"
    by code_simp
  have h: "\<forall>(sep, v)\<in>set [(''! _'', ''full#Name''), (''-'', ''x2'')].
           (\<forall>c\<in>set sep. \<not> is_alnum c) \<and> (\<exists>c\<in>set sep. is_separator c) \<and>
           (\<forall>c\<in>set v. \<not> is_separator c) \<and> (\<exists>c\<in>set v. is_alnum c)"
    using a by (simp only: list_all_iff list_ex_iff set_simps ball_simps prod.case simp_thms)
  from a have w: "\<forall>c\<in>set ''us.er''. \<not> is_separator c" "\<exists>c\<in>set ''us.er''. is_alnum c"
    and pre: "\<forall>c\<in>set ''?''. \<not> is_alnum c" and post: "\<forall>c\<in>set ''!''. \<not> is_alnum c"
    by (simp_all only: list_all_iff list_ex_iff)
  have i: "''?'' @ ''us.er'' @
          concat (map (\<lambda>(sep, v). sep @ v) [(''! _'', ''full#Name''), (''-'', ''x2'')]) @ ''!'' =
        ''?'' @ ''us.er'' @ ''! _'' @ ''full#Name'' @ ''-'' @ ''x2'' @ ''!''"
    by simp
  have "toCamelCase (JString (''?'' @ ''us.er'' @
          concat (map (\<lambda>(sep, v). sep @ v) [(''! _'', ''full#Name''), (''-'', ''x2'')]) @ ''!'')) =
        Inr (toLowerCase (filter is_alnum ''us.er'') @
           concat (map (\<lambda>(sep, v). upper_char (hd (filter is_alnum v)) #
                                     toLowerCase (tl (filter is_alnum v)))
             [(''! _'', ''full#Name''), (''-'', ''x2'')]))"
    using toCamelCase_rendering [OF w h pre post] by (rule conjunct1)
  then have "toCamelCase (JString (''?'' @ ''us.er'' @ ''! _'' @ ''full#Name'' @ ''-'' @ ''x2'' @ ''!'')) =
     Inr ''userFullnameX2''"
    by (simp only: i r)
  with a show ?thesis by (simp only: simp_thms)
qed

section \<open>Idempotence\<close>

text \<open>
  Claim C4, as amended. \<open>toSnakeCase\<close> applied to its own output returns that output
  unchanged, for every input on which it returns. \<open>toCamelCase\<close> applied to its own output
  returns that output in lowercase, so it leaves the output unchanged exactly when the output
  has no uppercase letter. \<open>toDotCase\<close> applied to its own output returns that output without
  its dots, so it leaves the output unchanged exactly when the output is one word.
  \<open>toKebabCase\<close> applied to its own output returns that output unchanged whenever no letter
  stands next to a digit in it.
\<close>

theorem reapplication:
  "(toSnakeCase v = Inr y \<longrightarrow> toSnakeCase (JString y) = Inr y) \<and>
   (toCamelCase v = Inr y \<longrightarrow> toCamelCase (JString y) = Inr (toLowerCase y)) \<and>
   (toDotCase v = Inr y \<longrightarrow> toDotCase (JString y) = Inr (remove_chars (\<lambda>c. c = CHR ''.'') y)) \<and>
   (toKebabCase v = Inr y \<and> \<not> has_adjacent is_letter is_digit y \<and>
      \<not> has_adjacent is_digit is_letter y \<longrightarrow> toKebabCase (JString y) = Inr y)"
  using snake_again [of v y] camel_again [of v y] dot_again [of v y] kebab_again [of v y]
  by blast


theorem reapplication_witness:
  "toSnakeCase (JString ''Hello  World!'') = Inr ''hello_world!'' \<and>
   toSnakeCase (JString ''hello_world!'') = Inr ''hello_world!'' \<and>
   toCamelCase (JString ''hello world'') = Inr ''helloWorld'' \<and>
   toCamelCase (JString ''helloWorld'') = Inr (toLowerCase ''helloWorld'') \<and>
   toDotCase (JString ''hello world'') = Inr ''hello.world'' \<and>
   toDotCase (JString ''hello.world'') = Inr (remove_chars (\<lambda>c. c = CHR ''.'') ''hello.world'') \<and>
   toKebabCase (JString ''helloWorld'') = Inr ''hello-world'' \<and>
   \<not> has_adjacent is_letter is_digit ''hello-world'' \<and>
   \<not> has_adjacent is_digit is_letter ''hello-world'' \<and>
   toKebabCase (JString ''hello-world'') = Inr ''hello-world''"
proof -
  have s: "toSnakeCase (JString ''Hello  World!'') = Inr ''hello_world!''" by code_simp
  have c: "toCamelCase (JString ''hello world'') = Inr ''helloWorld''" by code_simp
  have d: "toDotCase (JString ''hello world'') = Inr ''hello.world''" by code_simp
  have k: "toKebabCase (JString ''helloWorld'') = Inr ''hello-world''" by code_simp
  have a: "\<not> has_adjacent is_letter is_digit ''hello-world''"
    "\<not> has_adjacent is_digit is_letter ''hello-world''" by code_simp+
  from s reapplication [of "JString ''Hello  World!''" "''hello_world!''"]
  have s': "toSnakeCase (JString ''hello_world!'') = Inr ''hello_world!''" by blast
  from c reapplication [of "JString ''hello world''" "''helloWorld''"]
  have c': "toCamelCase (JString ''helloWorld'') = Inr (toLowerCase ''helloWorld'')" by blast
  from d reapplication [of "JString ''hello world''" "''hello.world''"]
  have d': "toDotCase (JString ''hello.world'') = Inr (remove_chars (\<lambda>c. c = CHR ''.'') ''hello.world'')"
    by blast
  from k a reapplication [of "JString ''helloWorld''" "''hello-world''"]
  have k': "toKebabCase (JString ''hello-world'') = Inr ''hello-world''" by blast
  from s s' c c' d d' k a k' show ?thesis by (simp only: simp_thms)
qed

text \<open>
  Claim C4 as stated fails for camel, dot and kebab: \<open>"helloWorld"\<close> becomes
  \<open>"helloworld"\<close>, \<open>"hello.world"\<close> becomes \<open>"helloworld"\<close>, and \<open>"a1"\<close>, the output
  for \<open>"a!1"\<close>, becomes \<open>"a-1"\<close>.
\<close>

theorem reapplication_counterexample:
  "toCamelCase (JString ''hello world'') = Inr ''helloWorld'' \<and>
   toCamelCase (JString ''helloWorld'') = Inr ''helloworld'' \<and>
   toDotCase (JString ''hello world'') = Inr ''hello.world'' \<and>
   toDotCase (JString ''hello.world'') = Inr ''helloworld'' \<and>
   toKebabCase (JString ''a!1'') = Inr ''a1'' \<and>
   toKebabCase (JString ''a1'') = Inr ''a-1''"
  by code_simp

end
